theory Spec2Isabelle
  imports Main "HOL-Library.Word" "HOL-Library.Sublist"
begin

section \<open>The program \<^verbatim>\<open>fib.c\<close> as a transition system\<close>

text \<open>
  The whole program is the function \<^verbatim>\<open>main\<close> of \<^verbatim>\<open>src/fib.c\<close>:
  \<^verbatim>\<open>
   3  int main(void) {
   4      int x, y, z;
   8      while (1) {
   9          x = 0;
  10          y = 1;
  11          do {
  12              printf("%d\n", x);
  13              z = x + y;
  14              x = y;
  15              y = z;
  16          } while (x < 255);
  17      }
  18  }
  \<close>
  It never returns, so its behaviour is the sequence of configurations it runs through
  and the lines it has written so far.  The model is a step function on configurations:
  a program point (named after the source line of the statement about to run), the
  three variables, and the values handed to \<^verbatim>\<open>printf\<close> so far.

  An \<^verbatim>\<open>int\<close> is a 32-bit word read in two's complement (\<open>sint\<close>).  Signed overflow is
  undefined in C: the addition of line 13 is a step to \<open>Inl Overflow\<close> when the
  mathematical sum leaves the range of \<^verbatim>\<open>int\<close>.  The three locals are not initialised
  by their declaration, so a run starts from arbitrary values of them.
\<close>

type_synonym c_int = "32 word"

definition INT_MIN :: int where
  "INT_MIN = - 2147483648"

definition INT_MAX :: int where
  "INT_MAX = 2147483647"

datatype label = L8 | L9 | L10 | L12 | L13 | L14 | L15 | L16 | L18

text \<open>
  Why a run stops: the undefined addition, or control reaching the closing brace of
  \<^verbatim>\<open>main\<close> at line 18.
\<close>

datatype stop = Overflow | Exit

record conf =
  pc :: label
  x :: c_int
  y :: c_int
  z :: c_int
  out :: "int list"

definition init :: "c_int \<Rightarrow> c_int \<Rightarrow> c_int \<Rightarrow> conf" where
  "init x0 y0 z0 = \<lparr>pc = L8, x = x0, y = y0, z = z0, out = []\<rparr>"

definition step :: "conf \<Rightarrow> stop + conf" where
  "step c =
     (case pc c of
        L8 \<Rightarrow> Inr (c\<lparr>pc := (if (1 :: c_int) \<noteq> 0 then L9 else L18)\<rparr>)
      | L9 \<Rightarrow> Inr (c\<lparr>x := 0, pc := L10\<rparr>)
      | L10 \<Rightarrow> Inr (c\<lparr>y := 1, pc := L12\<rparr>)
      | L12 \<Rightarrow> Inr (c\<lparr>out := out c @ [sint (x c)], pc := L13\<rparr>)
      | L13 \<Rightarrow>
          (if INT_MIN \<le> sint (x c) + sint (y c) \<and> sint (x c) + sint (y c) \<le> INT_MAX
           then Inr (c\<lparr>z := x c + y c, pc := L14\<rparr>)
           else Inl Overflow)
      | L14 \<Rightarrow> Inr (c\<lparr>x := y c, pc := L15\<rparr>)
      | L15 \<Rightarrow> Inr (c\<lparr>y := z c, pc := L16\<rparr>)
      | L16 \<Rightarrow> Inr (c\<lparr>pc := (if sint (x c) < 255 then L12 else L8)\<rparr>)
      | L18 \<Rightarrow> Inl Exit)"

text \<open>\<open>exec n\<close> runs \<open>n\<close> steps, or stops where a step stops.\<close>

fun exec :: "nat \<Rightarrow> conf \<Rightarrow> stop + conf" where
  "exec 0 c = Inr c"
| "exec (Suc n) c = (case step c of Inl e \<Rightarrow> Inl e | Inr c' \<Rightarrow> exec n c')"

text \<open>
  The configurations of all runs: a run starts at the head of the outer loop with
  nothing written and any values in the three locals.
\<close>

inductive reachable :: "conf \<Rightarrow> bool" where
  at_start: "reachable (init x0 y0 z0)"
| after_step: "reachable c \<Longrightarrow> step c = Inr c' \<Longrightarrow> reachable c'"

text \<open>
  \<open>run_to_restart n c\<close> runs from \<open>c\<close> until control is next at the head of the outer loop
  (line 8), which inside the loops happens only when the test of line 16 fails.  The fuel
  \<open>n\<close> bounds the number of steps; \<open>None\<close> is fuel exhausted before line 8.
\<close>

fun run_to_restart :: "nat \<Rightarrow> conf \<Rightarrow> (stop + conf) option" where
  "run_to_restart 0 c = None"
| "run_to_restart (Suc n) c =
     (case step c of
        Inl e \<Rightarrow> Some (Inl e)
      | Inr c' \<Rightarrow> if pc c' = L8 then Some (Inr c') else run_to_restart n c')"

text \<open>The values written between \<open>c\<close> and the next arrival at line 8.\<close>

definition emitted_by_cycle :: "nat \<Rightarrow> conf \<Rightarrow> (stop + int list) option" where
  "emitted_by_cycle n c =
     map_option (map_sum id (\<lambda>c'. drop (length (out c)) (out c'))) (run_to_restart n c)"

subsection \<open>The text written by \<^verbatim>\<open>printf("%d\n", x)\<close>\<close>

fun digits :: "nat \<Rightarrow> string" where
  "digits n =
     (if n < 10 then [''0123456789'' ! n]
      else digits (n div 10) @ [''0123456789'' ! (n mod 10)])"

declare digits.simps [simp del]

definition decimal :: "int \<Rightarrow> string" where
  "decimal v = (if v < 0 then CHR ''-'' # digits (nat (- v)) else digits (nat v))"

definition printf_d_nl :: "int \<Rightarrow> string" where
  "printf_d_nl v = decimal v @ [CHR 0x0A]"

definition stdout :: "conf \<Rightarrow> string" where
  "stdout c = concat (map printf_d_nl (out c))"

text \<open>
  The lines of a text: the pieces that end at a newline, and what follows the last
  newline if anything does.
\<close>

fun split_lines :: "string \<Rightarrow> string \<Rightarrow> string list" where
  "split_lines acc [] = (if acc = [] then [] else [acc])"
| "split_lines acc (ch # s) =
     (if ch = CHR 0x0A then acc # split_lines [] s else split_lines (acc @ [ch]) s)"

definition lines_of :: "string \<Rightarrow> string list" where
  "lines_of s = split_lines [] s"

text \<open>The first \<open>N\<close> lines of the text written by the run of \<open>k\<close> steps from \<open>c\<close>.\<close>

definition first_lines :: "nat \<Rightarrow> nat \<Rightarrow> conf \<Rightarrow> stop + string list" where
  "first_lines N k c = map_sum id (\<lambda>c'. take N (lines_of (stdout c'))) (exec k c)"

text \<open>Reading a decimal numeral back, to say what \<open>decimal\<close> denotes.\<close>

definition digit_val :: "char \<Rightarrow> nat" where
  "digit_val d = of_char d - 48"

definition numeral_val :: "string \<Rightarrow> nat" where
  "numeral_val ds = foldl (\<lambda>a d. 10 * a + digit_val d) 0 ds"

definition decimal_val :: "string \<Rightarrow> int" where
  "decimal_val s =
     (case s of
        [] \<Rightarrow> 0
      | d # ds \<Rightarrow> if d = CHR ''-'' then - int (numeral_val ds) else int (numeral_val s))"

subsection \<open>The invariant of all runs\<close>

text \<open>
  Everything written lies in \<open>0..254\<close>, line 18 is never the program point, and inside
  the inner loop \<open>x\<close> and \<open>y\<close> are consecutive members of a sequence that at most doubles:
  \<open>0 \<le> x \<le> y \<le> 2 * x + 1\<close> with \<open>x < 255\<close> where the loop body starts.  After line 14
  the old value of \<open>x\<close> is \<open>z - x\<close>, and after line 15 it is \<open>y - x\<close>.
\<close>

definition inv :: "conf \<Rightarrow> bool" where
  "inv c \<longleftrightarrow>
     (\<forall>v \<in> set (out c). 0 \<le> v \<and> v < 255) \<and>
     (case pc c of
        L8 \<Rightarrow> True
      | L9 \<Rightarrow> True
      | L10 \<Rightarrow> x c = 0
      | L12 \<Rightarrow> 0 \<le> sint (x c) \<and> sint (x c) < 255 \<and>
              sint (x c) \<le> sint (y c) \<and> sint (y c) \<le> 2 * sint (x c) + 1
      | L13 \<Rightarrow> 0 \<le> sint (x c) \<and> sint (x c) < 255 \<and>
              sint (x c) \<le> sint (y c) \<and> sint (y c) \<le> 2 * sint (x c) + 1
      | L14 \<Rightarrow> 0 \<le> sint (x c) \<and> sint (x c) < 255 \<and>
              sint (x c) \<le> sint (y c) \<and> sint (y c) \<le> 2 * sint (x c) + 1 \<and>
              sint (z c) = sint (x c) + sint (y c)
      | L15 \<Rightarrow> 0 \<le> sint (z c) - sint (x c) \<and> sint (z c) - sint (x c) < 255 \<and>
              sint (z c) - sint (x c) \<le> sint (x c) \<and>
              sint (x c) \<le> 2 * (sint (z c) - sint (x c)) + 1 \<and> y c = x c
      | L16 \<Rightarrow> 0 \<le> sint (y c) - sint (x c) \<and> sint (y c) - sint (x c) < 255 \<and>
              sint (y c) - sint (x c) \<le> sint (x c) \<and>
              sint (x c) \<le> 2 * (sint (y c) - sint (x c)) + 1 \<and> z c = y c
      | L18 \<Rightarrow> False)"

section \<open>Auxiliary facts\<close>

subsection \<open>Decimal numerals\<close>

lemma digit_val_nth: "n < 10 \<Longrightarrow> digit_val (''0123456789'' ! n) = n"
proof -
  assume "n < 10"
  then have "n \<in> {0,1,2,3,4,5,6,7,8,9}" by auto
  then show ?thesis by (auto simp: digit_val_def)
qed

lemma numeral_val_snoc: "numeral_val (ds @ [d]) = 10 * numeral_val ds + digit_val d"
  by (simp add: numeral_val_def)

lemma numeral_val_digits: "numeral_val (digits n) = n"
proof (induction n rule: digits.induct)
  case (1 n)
  show ?case
  proof (cases "n < 10")
    case True
    then show ?thesis
      using digit_val_nth [of n] by (subst digits.simps) (simp add: numeral_val_def)
  next
    case False
    then show ?thesis
      using 1 digit_val_nth [of "n mod 10"]
      by (subst digits.simps) (simp add: numeral_val_snoc)
  qed
qed

lemma digits_chars: "set (digits n) \<subseteq> set ''0123456789''"
proof (induction n rule: digits.induct)
  case (1 n)
  have nth: "\<And>k. k < 10 \<Longrightarrow> ''0123456789'' ! k \<in> set ''0123456789''"
    by (rule nth_mem) simp
  show ?case
  proof (cases "n < 10")
    case True
    then show ?thesis using nth [of n] by (subst digits.simps) simp
  next
    case False
    then show ?thesis
      using 1 nth [of "n mod 10"] by (subst digits.simps) simp
  qed
qed

lemma digits_nonempty: "digits n \<noteq> []"
  by (subst digits.simps) simp

lemma decimal_val_decimal: "decimal_val (decimal v) = v"
proof (cases "v < 0")
  case True
  then show ?thesis by (simp add: decimal_val_def decimal_def numeral_val_digits)
next
  case False
  have "hd (digits (nat v)) \<in> set ''0123456789''"
    using digits_chars [of "nat v"] digits_nonempty [of "nat v"] hd_in_set by blast
  then have "hd (digits (nat v)) \<noteq> CHR ''-''" by auto
  with False digits_nonempty [of "nat v"] show ?thesis
    using numeral_val_digits [of "nat v"]
    by (cases "digits (nat v)") (auto simp: decimal_val_def decimal_def)
qed

subsection \<open>Steps and runs\<close>

lemma sint_add_exact:
  fixes a b :: c_int
  assumes "INT_MIN \<le> sint a + sint b" "sint a + sint b \<le> INT_MAX"
  shows "sint (a + b) = sint a + sint b"
proof -
  have "sint (a + b) = signed_take_bit 31 (sint a + sint b)"
    by (simp add: sint_word_ariths)
  also have "\<dots> = sint a + sint b"
    using assms by (intro signed_take_bit_int_eq_self) (simp_all add: INT_MIN_def INT_MAX_def)
  finally show ?thesis .
qed

lemma step_out_prefix: "step c = Inr c' \<Longrightarrow> prefix (out c) (out c')"
  by (cases "pc c") (auto simp: step_def split: if_splits)

lemma exec_add:
  "exec (m + n) c = (case exec m c of Inl e \<Rightarrow> Inl e | Inr c' \<Rightarrow> exec n c')"
  by (induction m arbitrary: c) (auto split: sum.splits)

lemma exec_out_prefix: "exec n c = Inr c' \<Longrightarrow> prefix (out c) (out c')"
proof (induction n arbitrary: c)
  case 0
  then show ?case by simp
next
  case (Suc n)
  then obtain c1 where s: "step c = Inr c1" and e: "exec n c1 = Inr c'"
    by (auto split: sum.splits)
  from step_out_prefix [OF s] Suc.IH [OF e] show ?case
    by (rule prefix_order.trans)
qed

lemma inv_init: "inv (init x0 y0 z0)"
  by (simp add: inv_def init_def)

lemma inv_step_ok: "inv c \<Longrightarrow> \<exists>c'. step c = Inr c'"
  by (cases "pc c") (auto simp: inv_def step_def INT_MIN_def INT_MAX_def)

lemma inv_step: "inv c \<Longrightarrow> step c = Inr c' \<Longrightarrow> inv c'"
  by (cases "pc c")
     (auto simp: inv_def step_def sint_add_exact split: if_splits)

lemma reachable_inv: "reachable c \<Longrightarrow> inv c"
  by (induction rule: reachable.induct) (auto intro: inv_init inv_step)

lemma reachable_exec: "reachable c \<Longrightarrow> exec n c = Inr c' \<Longrightarrow> reachable c'"
proof (induction n arbitrary: c)
  case 0
  then show ?case by simp
next
  case (Suc n)
  then obtain c1 where s: "step c = Inr c1" and e: "exec n c1 = Inr c'"
    by (auto split: sum.splits)
  from Suc.prems(1) s have "reachable c1" by (rule reachable.after_step)
  then show ?case using e by (rule Suc.IH)
qed

lemma reachable_exec_ok: "reachable c \<Longrightarrow> \<exists>c'. exec n c = Inr c'"
proof (induction n arbitrary: c)
  case 0
  then show ?case by simp
next
  case (Suc n)
  from inv_step_ok [OF reachable_inv [OF Suc.prems]]
  obtain c1 where s: "step c = Inr c1" by blast
  with Suc.prems have "reachable c1" by (rule reachable.after_step)
  from Suc.IH [OF this] s show ?case by simp
qed

lemma cycle_run:
  "pc c = L8 \<Longrightarrow>
   run_to_restart 73 c = Some (Inr (c\<lparr>x := 377, y := 610, z := 610,
                       out := out c @ [0, 1, 1, 2, 3, 5, 8, 13, 21, 34, 55, 89, 144, 233]\<rparr>))"
  by (simp add: numeral_eq_Suc step_def INT_MIN_def INT_MAX_def)

lemma cycle_run_72:
  "pc c = L8 \<Longrightarrow> run_to_restart 72 c = None"
  by (simp add: numeral_eq_Suc step_def INT_MIN_def INT_MAX_def)

lemma run_to_restart_mono:
  "run_to_restart n c = Some r \<Longrightarrow> run_to_restart (n + k) c = Some r"
  by (induction n c rule: run_to_restart.induct) (auto split: sum.splits if_splits)

lemma reachable_after: "exec n (init x0 y0 z0) = Inr c \<Longrightarrow> reachable c"
  by (rule reachable_exec [OF reachable.at_start])

lemma emitted_by_cycle_eq:
  assumes "pc c = L8"
  shows "emitted_by_cycle n c =
    (if n < 73 then None else Some (Inr [0, 1, 1, 2, 3, 5, 8, 13, 21, 34, 55, 89, 144, 233]))"
proof (cases "n < 73")
  case True
  have "run_to_restart n c = None"
  proof (rule ccontr)
    assume "run_to_restart n c \<noteq> None"
    then obtain r where "run_to_restart n c = Some r" by blast
    from run_to_restart_mono [OF this, of "72 - n"] True
    have "run_to_restart 72 c = Some r" by simp
    with cycle_run_72 [OF assms] show False by simp
  qed
  with True show ?thesis by (simp add: emitted_by_cycle_def)
next
  case False
  from run_to_restart_mono [OF cycle_run [OF assms], of "n - 73"] False
  have "run_to_restart n c = Some (Inr (c\<lparr>x := 377, y := 610, z := 610,
          out := out c @ [0, 1, 1, 2, 3, 5, 8, 13, 21, 34, 55, 89, 144, 233]\<rparr>))"
    by simp
  with False show ?thesis by (simp add: emitted_by_cycle_def)
qed

lemma init_exec_3: "exec 3 (init 0 0 0) = Inr \<lparr>pc = L12, x = 0, y = 1, z = 0, out = []\<rparr>"
  by (simp add: numeral_eq_Suc step_def init_def)

lemma init_exec_72:
  "exec 72 (init 0 0 0) =
   Inr \<lparr>pc = L16, x = 377, y = 610, z = 610,
        out = [0, 1, 1, 2, 3, 5, 8, 13, 21, 34, 55, 89, 144, 233]\<rparr>"
  by (simp add: numeral_eq_Suc step_def init_def INT_MIN_def INT_MAX_def)

lemma init_exec_76:
  "exec 76 (init x0 y0 z0) =
   Inr \<lparr>pc = L12, x = 0, y = 1, z = 610,
        out = [0, 1, 1, 2, 3, 5, 8, 13, 21, 34, 55, 89, 144, 233]\<rparr>"
  by (simp add: numeral_eq_Suc step_def init_def INT_MIN_def INT_MAX_def)

lemma init_exec_77:
  "exec 77 (init x0 y0 z0) =
   Inr \<lparr>pc = L13, x = 0, y = 1, z = 610,
        out = [0, 1, 1, 2, 3, 5, 8, 13, 21, 34, 55, 89, 144, 233, 0]\<rparr>"
  by (simp add: numeral_eq_Suc step_def init_def INT_MIN_def INT_MAX_def)

lemma init_exec_82:
  "exec 82 (init 0 0 0) =
   Inr \<lparr>pc = L13, x = 1, y = 1, z = 1,
        out = [0, 1, 1, 2, 3, 5, 8, 13, 21, 34, 55, 89, 144, 233, 0, 1]\<rparr>"
  by (simp add: numeral_eq_Suc step_def init_def INT_MIN_def INT_MAX_def)

lemma init_exec_68:
  "exec 68 (init 0 0 0) =
   Inr \<lparr>pc = L12, x = 233, y = 377, z = 377,
        out = [0, 1, 1, 2, 3, 5, 8, 13, 21, 34, 55, 89, 144]\<rparr>"
  by (simp add: numeral_eq_Suc step_def init_def INT_MIN_def INT_MAX_def)

lemma reachable_L12: "reachable \<lparr>pc = L12, x = 0, y = 1, z = 0, out = []\<rparr>"
  by (rule reachable_after [OF init_exec_3])

lemma reachable_L12_last:
  "reachable \<lparr>pc = L12, x = 233, y = 377, z = 377,
        out = [0, 1, 1, 2, 3, 5, 8, 13, 21, 34, 55, 89, 144]\<rparr>"
  by (rule reachable_after [OF init_exec_68])

lemma reachable_L16:
  "reachable \<lparr>pc = L16, x = 377, y = 610, z = 610,
              out = [0, 1, 1, 2, 3, 5, 8, 13, 21, 34, 55, 89, 144, 233]\<rparr>"
  by (rule reachable_after [OF init_exec_72])

lemma reachable_L13:
  "reachable \<lparr>pc = L13, x = 1, y = 1, z = 1,
        out = [0, 1, 1, 2, 3, 5, 8, 13, 21, 34, 55, 89, 144, 233, 0, 1]\<rparr>"
  by (rule reachable_after [OF init_exec_82])

lemma inv_L12_no_overflow:
  "inv c \<Longrightarrow> pc c = L12 \<or> pc c = L13 \<Longrightarrow>
   INT_MIN \<le> sint (x c) + sint (y c) \<and> sint (x c) + sint (y c) \<le> INT_MAX"
  by (auto simp: inv_def INT_MIN_def INT_MAX_def)

lemma stdout_snoc: "stdout (c\<lparr>out := out c @ [v], pc := l\<rparr>) = stdout c @ decimal v @ [CHR 0x0A]"
  by (simp add: stdout_def printf_d_nl_def)

lemma decimal_no_minus: "0 \<le> v \<Longrightarrow> CHR ''-'' \<notin> set (printf_d_nl v)"
  using digits_chars [of "nat v"] by (auto simp: printf_d_nl_def decimal_def)

lemma decimal_no_newline: "CHR 0x0A \<notin> set (decimal v)"
  using digits_chars [of "nat v"] digits_chars [of "nat (- v)"]
  by (auto simp: decimal_def)

lemma split_lines_line:
  "CHR 0x0A \<notin> set l \<Longrightarrow> split_lines acc (l @ CHR 0x0A # s) = (acc @ l) # split_lines [] s"
  by (induction l arbitrary: acc) auto

lemma lines_of_concat: "lines_of (concat (map printf_d_nl vs)) = map decimal vs"
proof (induction vs)
  case Nil
  then show ?case by (simp add: lines_of_def)
next
  case (Cons v vs)
  have "lines_of (concat (map printf_d_nl (v # vs))) =
        split_lines [] (decimal v @ CHR 0x0A # concat (map printf_d_nl vs))"
    by (simp add: lines_of_def printf_d_nl_def)
  also have "\<dots> = decimal v # split_lines [] (concat (map printf_d_nl vs))"
    using split_lines_line [OF decimal_no_newline, where acc = "[]"] by simp
  finally show ?case using Cons.IH by (simp add: lines_of_def)
qed

lemma lines_of_stdout: "lines_of (stdout c) = map decimal (out c)"
  by (simp add: stdout_def lines_of_concat)

lemma first_lines_15:
  assumes "first_lines N k (init x0 y0 z0) = Inr ls" "15 \<le> length ls"
  shows "take 14 ls =
           [''0'', ''1'', ''1'', ''2'', ''3'', ''5'', ''8'', ''13'', ''21'', ''34'', ''55'',
            ''89'', ''144'', ''233''] \<and>
         ls ! 14 = ''0''"
proof -
  from assms(1) obtain c where c: "exec k (init x0 y0 z0) = Inr c"
    and ls: "ls = take N (map decimal (out c))"
    by (cases "exec k (init x0 y0 z0)") (auto simp: first_lines_def lines_of_stdout)
  from assms(2) ls have N: "15 \<le> N" and len: "15 \<le> length (out c)" by simp_all
  have "77 \<le> k"
  proof (rule ccontr)
    assume "\<not> 77 \<le> k"
    then have "76 = k + (76 - k)" by simp
    then have "exec 76 (init x0 y0 z0) = exec (k + (76 - k)) (init x0 y0 z0)" by simp
    also have "\<dots> = exec (76 - k) c" by (simp add: exec_add c)
    finally have "exec (76 - k) c =
      Inr \<lparr>pc = L12, x = 0, y = 1, z = 610,
           out = [0, 1, 1, 2, 3, 5, 8, 13, 21, 34, 55, 89, 144, 233]\<rparr>"
      by (simp add: init_exec_76)
    from exec_out_prefix [OF this]
    have "length (out c) \<le> 14" by (auto dest: prefix_length_le)
    with len show False by simp
  qed
  then have "k = 77 + (k - 77)" by simp
  then have "exec k (init x0 y0 z0) = exec (77 + (k - 77)) (init x0 y0 z0)" by simp
  also have "\<dots> = exec (k - 77) \<lparr>pc = L13, x = 0, y = 1, z = 610,
           out = [0, 1, 1, 2, 3, 5, 8, 13, 21, 34, 55, 89, 144, 233, 0]\<rparr>"
    by (simp only: exec_add init_exec_77 sum.case)
  finally have "exec (k - 77) \<lparr>pc = L13, x = 0, y = 1, z = 610,
           out = [0, 1, 1, 2, 3, 5, 8, 13, 21, 34, 55, 89, 144, 233, 0]\<rparr> = Inr c"
    using c by simp
  from exec_out_prefix [OF this]
  obtain rest where "out c = [0, 1, 1, 2, 3, 5, 8, 13, 21, 34, 55, 89, 144, 233, 0] @ rest"
    by (auto elim: prefixE)
  with ls N show ?thesis by (simp add: take_Cons' nth_Cons' decimal_def digits.simps)
qed

lemma first_lines_82:
  "first_lines 16 82 (init 0 0 0) =
     Inr [''0'', ''1'', ''1'', ''2'', ''3'', ''5'', ''8'', ''13'', ''21'', ''34'', ''55'', ''89'',
          ''144'', ''233'', ''0'', ''1'']"
  by (simp add: first_lines_def init_exec_82 lines_of_stdout decimal_def digits.simps)

section \<open>The properties of the specification\<close>

subsection \<open>C1: what one cycle writes\<close>

text \<open>
  C1, as the code has it: every cycle of the outer loop, that is every run from line 8
  to the next arrival at line 8, whatever the variables hold and whatever was written
  before, takes exactly 73 steps and writes exactly the fourteen values
  0, 1, 1, 2, 3, 5, 8, 13, 21, 34, 55, 89, 144, 233.  The value 377 is not among them.
\<close>

theorem C1_cycle_emits_fib_below_255:
  "pc c = L8 \<Longrightarrow>
   emitted_by_cycle n c =
     (if n < 73 then None else Some (Inr [0, 1, 1, 2, 3, 5, 8, 13, 21, 34, 55, 89, 144, 233]))"
  by (rule emitted_by_cycle_eq)

theorem C1_cycle_emits_fib_below_255_witness:
  "pc (init 0 0 0) = L8 \<and>
   emitted_by_cycle 100 (init 0 0 0) =
     Some (Inr [0, 1, 1, 2, 3, 5, 8, 13, 21, 34, 55, 89, 144, 233])"
proof -
  have h: "pc (init 0 0 0) = L8" by (simp add: init_def)
  from C1_cycle_emits_fib_below_255 [OF h, of 100] h show ?thesis by simp
qed

text \<open>
  The list of fifteen values ending in 377 is not what a cycle writes: the first cycle
  of the run that starts with all three variables 0 writes the fourteen values above.
\<close>

theorem C1_counterexample:
  "emitted_by_cycle 73 (init 0 0 0) =
     Some (Inr [0, 1, 1, 2, 3, 5, 8, 13, 21, 34, 55, 89, 144, 233]) \<and>
   emitted_by_cycle 73 (init 0 0 0) \<noteq>
     Some (Inr [0, 1, 1, 2, 3, 5, 8, 13, 21, 34, 55, 89, 144, 233, 377])"
  by (simp add: emitted_by_cycle_eq init_def)

subsection \<open>C2: the first lines of a run\<close>

text \<open>
  C2, as the code has it: a run from any initial values of the locals never stops, and
  of the first \<open>N\<close> lines of its text, once there are fifteen of them (as there are when
  \<open>N \<ge> 15\<close> and the run is at least 77 steps long), lines 1 to 14 are
  0, 1, 1, 2, 3, 5, 8, 13, 21, 34, 55, 89, 144, 233 and line 15 is 0 again: the inner loop
  restarts right after writing 233.
\<close>

theorem C2_first_fifteen_lines:
  "\<exists>ls. first_lines N k (init x0 y0 z0) = Inr ls \<and>
        (15 \<le> N \<and> 77 \<le> k \<longrightarrow> 15 \<le> length ls) \<and>
        (15 \<le> length ls \<longrightarrow>
           take 14 ls =
             [''0'', ''1'', ''1'', ''2'', ''3'', ''5'', ''8'', ''13'', ''21'', ''34'', ''55'',
              ''89'', ''144'', ''233''] \<and>
           ls ! 14 = ''0'')"
proof -
  from reachable_exec_ok [OF reachable.at_start]
  obtain c where c: "exec k (init x0 y0 z0) = Inr c" by blast
  let ?ls = "take N (lines_of (stdout c))"
  have fl: "first_lines N k (init x0 y0 z0) = Inr ?ls"
    by (simp add: first_lines_def c)
  have "15 \<le> length ?ls" if "15 \<le> N" "77 \<le> k"
  proof -
    from that(2) have "k = 77 + (k - 77)" by simp
    then have "exec k (init x0 y0 z0) = exec (77 + (k - 77)) (init x0 y0 z0)" by simp
    also have "\<dots> = exec (k - 77) \<lparr>pc = L13, x = 0, y = 1, z = 610,
           out = [0, 1, 1, 2, 3, 5, 8, 13, 21, 34, 55, 89, 144, 233, 0]\<rparr>"
      by (simp only: exec_add init_exec_77 sum.case)
    finally have "exec (k - 77) \<lparr>pc = L13, x = 0, y = 1, z = 610,
           out = [0, 1, 1, 2, 3, 5, 8, 13, 21, 34, 55, 89, 144, 233, 0]\<rparr> = Inr c"
      using c by simp
    from exec_out_prefix [OF this] have "15 \<le> length (out c)"
      by (auto dest: prefix_length_le)
    with that(1) show ?thesis by (simp add: lines_of_stdout)
  qed
  moreover from first_lines_15 [OF fl]
  have "15 \<le> length ?ls \<longrightarrow>
     take 14 ?ls =
       [''0'', ''1'', ''1'', ''2'', ''3'', ''5'', ''8'', ''13'', ''21'', ''34'', ''55'',
        ''89'', ''144'', ''233''] \<and>
     ?ls ! 14 = ''0''"
    by blast
  ultimately show ?thesis using fl by blast
qed

theorem C2_first_fifteen_lines_witness:
  "first_lines 16 82 (init 0 0 0) =
     Inr [''0'', ''1'', ''1'', ''2'', ''3'', ''5'', ''8'', ''13'', ''21'', ''34'', ''55'', ''89'',
          ''144'', ''233'', ''0'', ''1''] \<and>
   (15 :: nat) \<le> 16 \<and> (77 :: nat) \<le> 82 \<and>
   15 \<le> length [''0'', ''1'', ''1'', ''2'', ''3'', ''5'', ''8'', ''13'', ''21'', ''34'', ''55'',
          ''89'', ''144'', ''233'', ''0'', ''1''] \<and>
   take 14 [''0'', ''1'', ''1'', ''2'', ''3'', ''5'', ''8'', ''13'', ''21'', ''34'', ''55'',
          ''89'', ''144'', ''233'', ''0'', ''1''] =
     [''0'', ''1'', ''1'', ''2'', ''3'', ''5'', ''8'', ''13'', ''21'', ''34'', ''55'', ''89'',
      ''144'', ''233''] \<and>
   [''0'', ''1'', ''1'', ''2'', ''3'', ''5'', ''8'', ''13'', ''21'', ''34'', ''55'', ''89'',
    ''144'', ''233'', ''0'', ''1''] ! 14 = ''0''"
  using C2_first_fifteen_lines [of 16 82 0 0 0] first_lines_82 by simp

text \<open>
  The first sixteen lines of the run of 82 steps from all-zero locals: line 15 is 0 and
  line 16 is 1, not 377 followed by 0.
\<close>

theorem C2_counterexample:
  "first_lines 16 82 (init 0 0 0) =
     Inr [''0'', ''1'', ''1'', ''2'', ''3'', ''5'', ''8'', ''13'', ''21'', ''34'', ''55'', ''89'',
          ''144'', ''233'', ''0'', ''1''] \<and>
   first_lines 16 82 (init 0 0 0) \<noteq>
     Inr ([''0'', ''1'', ''1'', ''2'', ''3'', ''5'', ''8'', ''13'', ''21'', ''34'', ''55'', ''89'',
           ''144'', ''233'', ''377''] @ [''0''])"
  by (simp add: first_lines_82)

subsection \<open>C3: the test comes after the body\<close>

text \<open>
  C3, as the code has it: an inner iteration writes the value \<open>x\<close> has when it begins
  (a value below 255), then advances the variables, and only then, at line 16, tests the
  advanced \<open>x\<close>; the test writes nothing.  So when the test fails, the value of \<open>x\<close>
  that fails it has not been written, and control goes to line 8 without writing it.
\<close>

theorem C3_execute_then_check:
  "(reachable c \<and> pc c = L12 \<longrightarrow>
      sint (x c) < 255 \<and>
      exec 4 c = Inr (c\<lparr>out := out c @ [sint (x c)], z := x c + y c,
                         x := y c, y := x c + y c, pc := L16\<rparr>) \<and>
      exec 5 c = Inr (c\<lparr>out := out c @ [sint (x c)], z := x c + y c,
                         x := y c, y := x c + y c,
                         pc := (if sint (y c) < 255 then L12 else L8)\<rparr>)) \<and>
   (reachable d \<and> pc d = L16 \<and> \<not> sint (x d) < 255 \<longrightarrow>
      step d = Inr (d\<lparr>pc := L8\<rparr>) \<and> sint (x d) \<notin> set (out d))"
proof (intro conjI impI)
  assume a: "reachable c \<and> pc c = L12"
  then have i: "inv c" and p: "pc c = L12" by (simp_all add: reachable_inv)
  from inv_L12_no_overflow [OF i] p
  have no: "INT_MIN \<le> sint (x c) + sint (y c)" "sint (x c) + sint (y c) \<le> INT_MAX"
    by simp_all
  from i p show "sint (x c) < 255" by (simp add: inv_def)
  from p no show "exec 4 c = Inr (c\<lparr>out := out c @ [sint (x c)], z := x c + y c,
                         x := y c, y := x c + y c, pc := L16\<rparr>)"
    by (simp add: numeral_eq_Suc step_def)
  from p no show "exec 5 c = Inr (c\<lparr>out := out c @ [sint (x c)], z := x c + y c,
                         x := y c, y := x c + y c,
                         pc := (if sint (y c) < 255 then L12 else L8)\<rparr>)"
    by (simp add: numeral_eq_Suc step_def)
next
  assume a: "reachable d \<and> pc d = L16 \<and> \<not> sint (x d) < 255"
  then show "step d = Inr (d\<lparr>pc := L8\<rparr>)" by (simp add: step_def)
  from a have "inv d" by (simp add: reachable_inv)
  with a show "sint (x d) \<notin> set (out d)" by (auto simp: inv_def)
qed

theorem C3_execute_then_check_witness:
  "reachable \<lparr>pc = L12, x = 0, y = 1, z = 0, out = []\<rparr> \<and>
   exec 5 \<lparr>pc = L12, x = 0, y = 1, z = 0, out = []\<rparr> =
     Inr \<lparr>pc = L12, x = 1, y = 1, z = 1, out = [0]\<rparr> \<and>
   reachable \<lparr>pc = L16, x = 377, y = 610, z = 610,
              out = [0, 1, 1, 2, 3, 5, 8, 13, 21, 34, 55, 89, 144, 233]\<rparr> \<and>
   \<not> sint (377 :: c_int) < 255 \<and>
   step \<lparr>pc = L16, x = 377, y = 610, z = 610,
         out = [0, 1, 1, 2, 3, 5, 8, 13, 21, 34, 55, 89, 144, 233]\<rparr> =
     Inr \<lparr>pc = L8, x = 377, y = 610, z = 610,
          out = [0, 1, 1, 2, 3, 5, 8, 13, 21, 34, 55, 89, 144, 233]\<rparr> \<and>
   sint (377 :: c_int) \<notin> set [0, 1, 1, 2, 3, 5, 8, 13, 21, 34, 55, 89, 144, 233]"
  using C3_execute_then_check
    [of "\<lparr>pc = L12, x = 0, y = 1, z = 0, out = []\<rparr>"
        "\<lparr>pc = L16, x = 377, y = 610, z = 610,
              out = [0, 1, 1, 2, 3, 5, 8, 13, 21, 34, 55, 89, 144, 233]\<rparr>"]
    reachable_L12 reachable_L16
  by simp

text \<open>
  In the first cycle from all-zero locals the value that ends the inner loop is 377, and
  377 is not among the values written when the cycle restarts.
\<close>

theorem C3_counterexample:
  "run_to_restart 73 (init 0 0 0) =
     Some (Inr \<lparr>pc = L8, x = 377, y = 610, z = 610,
                out = [0, 1, 1, 2, 3, 5, 8, 13, 21, 34, 55, 89, 144, 233]\<rparr>) \<and>
   \<not> sint (377 :: c_int) < 255 \<and>
   sint (377 :: c_int) \<notin> set [0, 1, 1, 2, 3, 5, 8, 13, 21, 34, 55, 89, 144, 233]"
  by (simp add: cycle_run init_def)

subsection \<open>C4: the order of the statements\<close>

text \<open>
  C4: an outer iteration starts with \<open>x = 0\<close> and then \<open>y = 1\<close>; an inner iteration
  writes \<open>x\<close> as a decimal numeral followed by a newline (and the numeral denotes \<open>x\<close>),
  then sets \<open>z\<close> to the exact sum \<open>x + y\<close>, then \<open>x\<close> to \<open>y\<close>, then \<open>y\<close> to \<open>z\<close>, and
  then goes round again if \<open>x < 255\<close> and to the head of the outer loop otherwise.
\<close>

theorem C4_iteration_order:
  "(pc c = L8 \<longrightarrow>
      step c = Inr (c\<lparr>pc := L9\<rparr>) \<and>
      step (c\<lparr>pc := L9\<rparr>) = Inr (c\<lparr>x := 0, pc := L10\<rparr>) \<and>
      step (c\<lparr>x := 0, pc := L10\<rparr>) = Inr (c\<lparr>x := 0, y := 1, pc := L12\<rparr>)) \<and>
   (reachable d \<and> pc d = L12 \<longrightarrow>
      (let d1 = d\<lparr>out := out d @ [sint (x d)], pc := L13\<rparr>;
           d2 = d1\<lparr>z := x d + y d, pc := L14\<rparr>;
           d3 = d2\<lparr>x := y d, pc := L15\<rparr>;
           d4 = d3\<lparr>y := z d3, pc := L16\<rparr>;
           d5 = d4\<lparr>pc := (if sint (x d4) < 255 then L12 else L8)\<rparr>
       in step d = Inr d1 \<and>
          stdout d1 = stdout d @ decimal (sint (x d)) @ [CHR 0x0A] \<and>
          decimal_val (decimal (sint (x d))) = sint (x d) \<and>
          step d1 = Inr d2 \<and> sint (z d2) = sint (x d) + sint (y d) \<and>
          step d2 = Inr d3 \<and>
          step d3 = Inr d4 \<and>
          step d4 = Inr d5))"
proof (intro conjI impI)
  assume "pc c = L8"
  then show "step c = Inr (c\<lparr>pc := L9\<rparr>)" by (simp add: step_def)
  show "step (c\<lparr>pc := L9\<rparr>) = Inr (c\<lparr>x := 0, pc := L10\<rparr>)" by (simp add: step_def)
  show "step (c\<lparr>x := 0, pc := L10\<rparr>) = Inr (c\<lparr>x := 0, y := 1, pc := L12\<rparr>)"
    by (simp add: step_def)
next
  assume a: "reachable d \<and> pc d = L12"
  then have i: "inv d" and p: "pc d = L12" by (simp_all add: reachable_inv)
  from inv_L12_no_overflow [OF i] p
  have no: "INT_MIN \<le> sint (x d) + sint (y d)" "sint (x d) + sint (y d) \<le> INT_MAX"
    by simp_all
  from p no sint_add_exact [OF no] decimal_val_decimal [of "sint (x d)"]
  show "let d1 = d\<lparr>out := out d @ [sint (x d)], pc := L13\<rparr>;
           d2 = d1\<lparr>z := x d + y d, pc := L14\<rparr>;
           d3 = d2\<lparr>x := y d, pc := L15\<rparr>;
           d4 = d3\<lparr>y := z d3, pc := L16\<rparr>;
           d5 = d4\<lparr>pc := (if sint (x d4) < 255 then L12 else L8)\<rparr>
       in step d = Inr d1 \<and>
          stdout d1 = stdout d @ decimal (sint (x d)) @ [CHR 0x0A] \<and>
          decimal_val (decimal (sint (x d))) = sint (x d) \<and>
          step d1 = Inr d2 \<and> sint (z d2) = sint (x d) + sint (y d) \<and>
          step d2 = Inr d3 \<and>
          step d3 = Inr d4 \<and>
          step d4 = Inr d5"
    by (simp add: Let_def step_def stdout_snoc)
qed

theorem C4_iteration_order_witness:
  "pc (init 7 8 9) = L8 \<and>
   step (init 7 8 9) = Inr \<lparr>pc = L9, x = 7, y = 8, z = 9, out = []\<rparr> \<and>
   step \<lparr>pc = L9, x = 7, y = 8, z = 9, out = []\<rparr> =
     Inr \<lparr>pc = L10, x = 0, y = 8, z = 9, out = []\<rparr> \<and>
   step \<lparr>pc = L10, x = 0, y = 8, z = 9, out = []\<rparr> =
     Inr \<lparr>pc = L12, x = 0, y = 1, z = 9, out = []\<rparr> \<and>
   reachable \<lparr>pc = L12, x = 233, y = 377, z = 377,
        out = [0, 1, 1, 2, 3, 5, 8, 13, 21, 34, 55, 89, 144]\<rparr> \<and>
   step \<lparr>pc = L12, x = 233, y = 377, z = 377,
        out = [0, 1, 1, 2, 3, 5, 8, 13, 21, 34, 55, 89, 144]\<rparr> =
     Inr \<lparr>pc = L13, x = 233, y = 377, z = 377,
        out = [0, 1, 1, 2, 3, 5, 8, 13, 21, 34, 55, 89, 144, 233]\<rparr> \<and>
   stdout \<lparr>pc = L13, x = 233, y = 377, z = 377,
        out = [0, 1, 1, 2, 3, 5, 8, 13, 21, 34, 55, 89, 144, 233]\<rparr> =
     stdout \<lparr>pc = L12, x = 233, y = 377, z = 377,
        out = [0, 1, 1, 2, 3, 5, 8, 13, 21, 34, 55, 89, 144]\<rparr> @ ''233'' @ [CHR 0x0A] \<and>
   step \<lparr>pc = L13, x = 233, y = 377, z = 377,
        out = [0, 1, 1, 2, 3, 5, 8, 13, 21, 34, 55, 89, 144, 233]\<rparr> =
     Inr \<lparr>pc = L14, x = 233, y = 377, z = 610,
        out = [0, 1, 1, 2, 3, 5, 8, 13, 21, 34, 55, 89, 144, 233]\<rparr> \<and>
   step \<lparr>pc = L14, x = 233, y = 377, z = 610,
        out = [0, 1, 1, 2, 3, 5, 8, 13, 21, 34, 55, 89, 144, 233]\<rparr> =
     Inr \<lparr>pc = L15, x = 377, y = 377, z = 610,
        out = [0, 1, 1, 2, 3, 5, 8, 13, 21, 34, 55, 89, 144, 233]\<rparr> \<and>
   step \<lparr>pc = L15, x = 377, y = 377, z = 610,
        out = [0, 1, 1, 2, 3, 5, 8, 13, 21, 34, 55, 89, 144, 233]\<rparr> =
     Inr \<lparr>pc = L16, x = 377, y = 610, z = 610,
        out = [0, 1, 1, 2, 3, 5, 8, 13, 21, 34, 55, 89, 144, 233]\<rparr> \<and>
   step \<lparr>pc = L16, x = 377, y = 610, z = 610,
        out = [0, 1, 1, 2, 3, 5, 8, 13, 21, 34, 55, 89, 144, 233]\<rparr> =
     Inr \<lparr>pc = L8, x = 377, y = 610, z = 610,
        out = [0, 1, 1, 2, 3, 5, 8, 13, 21, 34, 55, 89, 144, 233]\<rparr>"
  using C4_iteration_order [of "init 7 8 9" "\<lparr>pc = L12, x = 233, y = 377, z = 377,
        out = [0, 1, 1, 2, 3, 5, 8, 13, 21, 34, 55, 89, 144]\<rparr>"] reachable_L12_last
  by (simp add: init_def Let_def decimal_def digits.simps)

subsection \<open>C5: nothing negative is written\<close>

text \<open>
  C5: in every configuration of every run, each value written so far is at least 0,
  and the text written has no minus sign.
\<close>

theorem C5_never_negative:
  "reachable c \<Longrightarrow> (\<forall>v \<in> set (out c). 0 \<le> v) \<and> CHR ''-'' \<notin> set (stdout c)"
proof -
  assume "reachable c"
  then have "inv c" by (rule reachable_inv)
  then have nn: "\<forall>v \<in> set (out c). 0 \<le> v" by (simp add: inv_def)
  then have "CHR ''-'' \<notin> set (stdout c)"
    using decimal_no_minus by (auto simp: stdout_def)
  with nn show ?thesis by simp
qed

theorem C5_never_negative_witness:
  "reachable \<lparr>pc = L13, x = 1, y = 1, z = 1,
        out = [0, 1, 1, 2, 3, 5, 8, 13, 21, 34, 55, 89, 144, 233, 0, 1]\<rparr> \<and>
   list_all (\<lambda>v. 0 \<le> v) [0, 1, 1, 2, 3, 5, 8, 13, 21, 34, 55, 89, 144, 233, 0, 1 :: int] \<and>
   CHR ''-'' \<notin> set (stdout \<lparr>pc = L13, x = 1, y = 1, z = 1,
        out = [0, 1, 1, 2, 3, 5, 8, 13, 21, 34, 55, 89, 144, 233, 0, 1]\<rparr>)"
  using C5_never_negative [OF reachable_L13] reachable_L13 by (simp add: list_all_iff)

subsection \<open>C6: all cycles write the same\<close>

text \<open>
  C6: two cycles of the outer loop, started with whatever values in the variables and
  whatever written before, write the same values (with any fuel the two results agree,
  and 73 steps complete a cycle).
\<close>

theorem C6_cycles_identical:
  "pc c1 = L8 \<Longrightarrow> pc c2 = L8 \<Longrightarrow>
   emitted_by_cycle n c1 = emitted_by_cycle n c2 \<and>
   (\<exists>vs. emitted_by_cycle 73 c1 = Some (Inr vs))"
  by (simp add: emitted_by_cycle_eq)

theorem C6_cycles_identical_witness:
  "pc (init 0 0 0) = L8 \<and>
   pc \<lparr>pc = L8, x = 377, y = 610, z = 610,
       out = [0, 1, 1, 2, 3, 5, 8, 13, 21, 34, 55, 89, 144, 233]\<rparr> = L8 \<and>
   emitted_by_cycle 73 (init 0 0 0) =
   emitted_by_cycle 73 \<lparr>pc = L8, x = 377, y = 610, z = 610,
       out = [0, 1, 1, 2, 3, 5, 8, 13, 21, 34, 55, 89, 144, 233]\<rparr>"
proof -
  have h1: "pc (init 0 0 0) = L8" by (simp add: init_def)
  have h2: "pc \<lparr>pc = L8, x = 377, y = 610, z = 610,
       out = [0, 1, 1, 2, 3, 5, 8, 13, 21, 34, 55, 89, 144, 233]\<rparr> = L8" by simp
  from C6_cycles_identical [OF h1 h2, of 73] h1 show ?thesis by simp
qed

subsection \<open>C7: no overflow\<close>

text \<open>
  C7: no step of any run is the undefined addition.  Whenever line 13 is about to run,
  the mathematical sum of \<open>x\<close> and \<open>y\<close> is in the range of \<^verbatim>\<open>int\<close> and is what the
  machine addition yields; inside the inner loop \<open>x\<close> stays in \<open>0..509\<close> and \<open>y\<close> in
  \<open>0..763\<close>, and so does \<open>z\<close> once line 13 has assigned it.
\<close>

theorem C7_no_overflow:
  "reachable c \<Longrightarrow>
   step c \<noteq> Inl Overflow \<and>
   (pc c = L13 \<longrightarrow>
      INT_MIN \<le> sint (x c) + sint (y c) \<and> sint (x c) + sint (y c) \<le> INT_MAX \<and>
      sint (x c + y c) = sint (x c) + sint (y c)) \<and>
   (pc c \<in> {L12, L13, L14, L15, L16} \<longrightarrow>
      0 \<le> sint (x c) \<and> sint (x c) \<le> 509 \<and> 0 \<le> sint (y c) \<and> sint (y c) \<le> 763) \<and>
   (pc c \<in> {L14, L15, L16} \<longrightarrow> 0 \<le> sint (z c) \<and> sint (z c) \<le> 763)"
proof -
  assume "reachable c"
  then have i: "inv c" by (rule reachable_inv)
  from inv_step_ok [OF i] have "step c \<noteq> Inl Overflow" by auto
  moreover have "INT_MIN \<le> sint (x c) + sint (y c) \<and> sint (x c) + sint (y c) \<le> INT_MAX \<and>
      sint (x c + y c) = sint (x c) + sint (y c)" if "pc c = L13"
    using inv_L12_no_overflow [OF i] that sint_add_exact [of "x c" "y c"] by simp
  moreover have "0 \<le> sint (x c) \<and> sint (x c) \<le> 509 \<and> 0 \<le> sint (y c) \<and> sint (y c) \<le> 763"
    if "pc c \<in> {L12, L13, L14, L15, L16}"
    using i that by (auto simp: inv_def)
  moreover have "0 \<le> sint (z c) \<and> sint (z c) \<le> 763" if "pc c \<in> {L14, L15, L16}"
    using i that by (auto simp: inv_def)
  ultimately show ?thesis by blast
qed

theorem C7_no_overflow_witness:
  "reachable \<lparr>pc = L13, x = 1, y = 1, z = 1,
        out = [0, 1, 1, 2, 3, 5, 8, 13, 21, 34, 55, 89, 144, 233, 0, 1]\<rparr> \<and>
   step \<lparr>pc = L13, x = 1, y = 1, z = 1,
        out = [0, 1, 1, 2, 3, 5, 8, 13, 21, 34, 55, 89, 144, 233, 0, 1]\<rparr> \<noteq> Inl Overflow \<and>
   INT_MIN \<le> sint (1 :: c_int) + sint (1 :: c_int) \<and>
   sint (1 :: c_int) + sint (1 :: c_int) \<le> INT_MAX \<and>
   sint (1 + 1 :: c_int) = sint (1 :: c_int) + sint (1 :: c_int)"
  using C7_no_overflow [OF reachable_L13] reachable_L13 by simp

subsection \<open>C8: the program never terminates\<close>

text \<open>
  C8: no configuration of any run is at line 18, each has a successor, and from each
  a run of any length exists and stays clear of line 18.
\<close>

theorem C8_never_terminates:
  "reachable c \<Longrightarrow>
   pc c \<noteq> L18 \<and> (\<exists>c'. step c = Inr c') \<and>
   (\<forall>n. \<exists>c'. exec n c = Inr c' \<and> reachable c' \<and> pc c' \<noteq> L18)"
proof -
  assume r: "reachable c"
  have no18: "pc d \<noteq> L18" if "reachable d" for d
    using reachable_inv [OF that] by (auto simp: inv_def)
  have "\<exists>c'. exec n c = Inr c' \<and> reachable c' \<and> pc c' \<noteq> L18" for n
  proof -
    from reachable_exec_ok [OF r] obtain c' where e: "exec n c = Inr c'" by blast
    from reachable_exec [OF r e] have "reachable c'" .
    with e no18 show ?thesis by blast
  qed
  with no18 [OF r] inv_step_ok [OF reachable_inv [OF r]] show ?thesis by blast
qed

theorem C8_never_terminates_witness:
  "reachable (init 0 0 0) \<and> pc (init 0 0 0) \<noteq> L18 \<and>
   (\<exists>c'. step (init 0 0 0) = Inr c') \<and>
   (\<exists>c'. exec 1000 (init 0 0 0) = Inr c' \<and> reachable c' \<and> pc c' \<noteq> L18)"
  using C8_never_terminates [OF reachable.at_start [of 0 0 0]] reachable.at_start [of 0 0 0]
  by blast

subsection \<open>C9: the inner loop terminates\<close>

text \<open>
  C9: started at line 12 with \<open>x = 0\<close> and \<open>y = 1\<close>, whatever \<open>z\<close> holds and whatever
  was written before, the inner loop is left for line 8 after exactly 70 steps, that is
  fourteen iterations, without overflow and with \<open>x = 377\<close>.
\<close>

theorem C9_inner_loop_terminates:
  "run_to_restart (70 + n) (c\<lparr>pc := L12, x := 0, y := 1\<rparr>) =
     Some (Inr (c\<lparr>pc := L8, x := 377, y := 610, z := 610,
                  out := out c @ [0, 1, 1, 2, 3, 5, 8, 13, 21, 34, 55, 89, 144, 233]\<rparr>)) \<and>
   run_to_restart 69 (c\<lparr>pc := L12, x := 0, y := 1\<rparr>) = None \<and>
   \<not> sint (377 :: c_int) < 255"
proof -
  have "run_to_restart 70 (c\<lparr>pc := L12, x := 0, y := 1\<rparr>) =
     Some (Inr (c\<lparr>pc := L8, x := 377, y := 610, z := 610,
                  out := out c @ [0, 1, 1, 2, 3, 5, 8, 13, 21, 34, 55, 89, 144, 233]\<rparr>))"
    by (simp add: numeral_eq_Suc step_def INT_MIN_def INT_MAX_def)
  from run_to_restart_mono [OF this, of n]
  have "run_to_restart (70 + n) (c\<lparr>pc := L12, x := 0, y := 1\<rparr>) =
     Some (Inr (c\<lparr>pc := L8, x := 377, y := 610, z := 610,
                  out := out c @ [0, 1, 1, 2, 3, 5, 8, 13, 21, 34, 55, 89, 144, 233]\<rparr>))" .
  moreover have "run_to_restart 69 (c\<lparr>pc := L12, x := 0, y := 1\<rparr>) = None"
    by (simp add: numeral_eq_Suc step_def INT_MIN_def INT_MAX_def)
  ultimately show ?thesis by simp
qed

subsection \<open>C10: everything written is below 255\<close>

text \<open>
  C10: in every configuration of every run, each value written so far is less
  than 255.
\<close>

theorem C10_below_255:
  "reachable c \<Longrightarrow> \<forall>v \<in> set (out c). v < 255"
  by (drule reachable_inv) (simp add: inv_def)

theorem C10_below_255_witness:
  "reachable \<lparr>pc = L13, x = 1, y = 1, z = 1,
        out = [0, 1, 1, 2, 3, 5, 8, 13, 21, 34, 55, 89, 144, 233, 0, 1]\<rparr> \<and>
   list_all (\<lambda>v. v < 255) [0, 1, 1, 2, 3, 5, 8, 13, 21, 34, 55, 89, 144, 233, 0, 1 :: int]"
  using C10_below_255 [OF reachable_L13] reachable_L13 by (simp add: list_all_iff)

end
